theory Spec2Isabelle
  imports Complex_Main "HOL-Library.Word"
begin

unbundle bit_operations_syntax

section \<open>RTP header codec (src/utils/rtpUtils.ts)\<close>

text \<open>
  A Node \<open>Buffer\<close> is a list of bytes. The two \<open>throw new Error(...)\<close> sites of the
  codec and the \<open>RangeError\<close> of an out-of-range \<open>readUInt..BE\<close> are the values of
  \<open>rtp_error\<close>; the specification calls the first two \<open>MalformedPacket\<close>.
\<close>

type_synonym byte = "8 word"
type_synonym buffer = "byte list"

datatype rtp_error =
    HeaderTooSmall       \<comment> \<open>'Buffer too small for RTP header'\<close>
  | ExtensionTooSmall    \<comment> \<open>'Buffer too small for RTP extension header'\<close>
  | RangeError           \<comment> \<open>a read past the end of the buffer\<close>

record RtpHeader =
  version :: nat
  padding :: bool
  extension :: bool
  csrcCount :: nat
  marker :: bool
  payloadType :: nat
  sequenceNumber :: nat
  timestamp :: nat
  ssrc :: nat

definition readUInt16BE :: "buffer \<Rightarrow> nat \<Rightarrow> rtp_error + nat" where
  "readUInt16BE buf off =
     (if off + 2 \<le> length buf
      then Inr (unat (buf ! off) * 256 + unat (buf ! (off + 1)))
      else Inl RangeError)"

definition readUInt32BE :: "buffer \<Rightarrow> nat \<Rightarrow> rtp_error + nat" where
  "readUInt32BE buf off =
     (if off + 4 \<le> length buf
      then Inr (unat (buf ! off) * 16777216 + unat (buf ! (off + 1)) * 65536
                + unat (buf ! (off + 2)) * 256 + unat (buf ! (off + 3)))
      else Inl RangeError)"

definition parseRtpHeader :: "buffer \<Rightarrow> rtp_error + RtpHeader" where
  "parseRtpHeader buf =
     (if length buf < 12 then Inl HeaderTooSmall
      else
        let firstByte = buf ! 0;
            secondByte = buf ! 1
        in case readUInt16BE buf 2 of
             Inl e \<Rightarrow> Inl e
           | Inr sequenceNumber' \<Rightarrow>
          (case readUInt32BE buf 4 of
             Inl e \<Rightarrow> Inl e
           | Inr timestamp' \<Rightarrow>
          (case readUInt32BE buf 8 of
             Inl e \<Rightarrow> Inl e
           | Inr ssrc' \<Rightarrow>
               Inr \<lparr> version = unat (drop_bit 6 firstByte AND 3),
                     padding = (drop_bit 5 firstByte AND 1 = 1),
                     extension = (drop_bit 4 firstByte AND 1 = 1),
                     csrcCount = unat (firstByte AND 15),
                     marker = (drop_bit 7 secondByte AND 1 = 1),
                     payloadType = unat (secondByte AND 127),
                     sequenceNumber = sequenceNumber',
                     timestamp = timestamp',
                     ssrc = ssrc' \<rparr>)))"

text \<open>\<open>buffer.slice(payloadStart)\<close> is \<open>drop\<close>: a start past the end gives the empty buffer.\<close>

definition extractOpusPayload :: "buffer \<Rightarrow> rtp_error + buffer" where
  "extractOpusPayload buf =
     (case parseRtpHeader buf of
        Inl e \<Rightarrow> Inl e
      | Inr header \<Rightarrow>
          let payloadStart = (12::nat);
              payloadStart = (if csrcCount header > 0
                              then payloadStart + csrcCount header * 4
                              else payloadStart)
          in if extension header then
               (if length buf < payloadStart + 4 then Inl ExtensionTooSmall
                else case readUInt16BE buf (payloadStart + 2) of
                       Inl e \<Rightarrow> Inl e
                     | Inr extensionLength \<Rightarrow>
                         Inr (drop (payloadStart + 4 + extensionLength * 4) buf))
             else Inr (drop payloadStart buf))"

text \<open>A 16-byte packet: version 2, extension flag set, no CSRC, and an extension header
  that declares one 32-bit word of extension data which the buffer does not hold.\<close>

definition truncated_extension_packet :: buffer where
  "truncated_extension_packet =
     [0x90, 0x78, 0, 1,  0, 0, 0, 0,  0, 0, 0, 1,  0xBE, 0xDE, 0, 1]"

definition short_packet :: buffer where
  "short_packet = [0x80, 0x78, 0, 1,  0, 0, 0, 0,  0, 0, 0]"

definition version3_packet :: buffer where
  "version3_packet = [0xC0, 0x78, 0, 1,  0, 0, 0, 0,  0, 0, 0, 1]"

section \<open>Jitter buffer (class JitterBuffer)\<close>

text \<open>
  Sequence numbers, media timestamps and \<open>Date.now()\<close> readings are JavaScript numbers
  holding integers; they are modelled as \<open>int\<close>. In particular \<open>expectedSequence\<close>
  is a plain number that only ever grows: the class never reduces it modulo \<open>2^16\<close>.
\<close>

record JitterBufferPacket =
  data :: buffer
  sequence :: int
  media_timestamp :: int   \<comment> \<open>field \<open>timestamp\<close> of the source\<close>
  bufferedAt :: int

record JitterBuffer =
  packetQueue :: "JitterBufferPacket list"
  lastFlushTime :: int
  expectedSequence :: int
  isInitialized :: bool

definition TARGET_DELAY_MS :: int where "TARGET_DELAY_MS = 150"
definition FRAME_DURATION_MS :: int where "FRAME_DURATION_MS = 20"

text \<open>The field initialisers of the class: the state of \<open>new JitterBuffer()\<close>.\<close>

definition new_JitterBuffer :: JitterBuffer where
  "new_JitterBuffer =
     \<lparr> packetQueue = [], lastFlushTime = 0, expectedSequence = 0, isInitialized = False \<rparr>"

text \<open>
  \<open>bufferPacket\<close> pushes a copy of the packet stamped with the current \<open>Date.now()\<close>
  (the parameter \<open>now\<close>), seeds \<open>expectedSequence\<close> on the first packet, and sorts the
  queue by sequence number. \<open>Array.prototype.sort\<close> is stable, as \<open>sort_key\<close> is.
\<close>

definition bufferPacket :: "JitterBuffer \<Rightarrow> JitterBufferPacket \<Rightarrow> int \<Rightarrow> JitterBuffer" where
  "bufferPacket jb packet now =
     (let pushed = packetQueue jb @ [packet\<lparr>bufferedAt := now\<rparr>];
          jb1 = (if \<not> isInitialized jb
                 then jb\<lparr>expectedSequence := sequence packet, isInitialized := True\<rparr>
                 else jb)
      in jb1\<lparr>packetQueue := sort_key sequence pushed\<rparr>)"

definition shouldFlush :: "JitterBuffer \<Rightarrow> int \<Rightarrow> bool" where
  "shouldFlush jb currentTime =
     (case packetQueue jb of
        [] \<Rightarrow> False
      | oldestPacket # _ \<Rightarrow>
          let bufferDelay = currentTime - bufferedAt oldestPacket
          in bufferDelay \<ge> TARGET_DELAY_MS \<or>
             currentTime - lastFlushTime jb \<ge> FRAME_DURATION_MS)"

definition createSilencePacket :: "int \<Rightarrow> int \<Rightarrow> JitterBufferPacket" where
  "createSilencePacket seq now =
     \<lparr> data = [0xF8, 0xFF, 0xFE], sequence = seq, media_timestamp = 0, bufferedAt = now \<rparr>"

text \<open>\<open>Array.prototype.findIndex\<close>: the first index whose element satisfies the predicate;
  \<open>None\<close> stands for the result \<open>-1\<close>.\<close>

fun findIndex :: "('a \<Rightarrow> bool) \<Rightarrow> 'a list \<Rightarrow> nat option" where
  "findIndex P [] = None"
| "findIndex P (x # xs) = (if P x then Some 0 else map_option Suc (findIndex P xs))"

text \<open>\<open>queue.splice(k, 1)\<close> removes the element at index \<open>k\<close> in place.\<close>

definition splice1 :: "nat \<Rightarrow> 'a list \<Rightarrow> 'a list" where
  "splice1 k xs = take k xs @ drop (Suc k) xs"

text \<open>
  One call of \<open>flush\<close> reads the clock several times: in \<open>shouldFlush()\<close>, for
  \<open>lastFlushTime\<close>, for \<open>currentTime\<close>, and once in every \<open>createSilencePacket\<close>.
  The readings are the inputs of the model.
\<close>

record flush_clock =
  t_check :: int             \<comment> \<open>the default argument of \<open>shouldFlush\<close>\<close>
  t_mark :: int              \<comment> \<open>\<open>this.lastFlushTime = Date.now()\<close>\<close>
  t_span :: int              \<comment> \<open>\<open>const currentTime = Date.now()\<close>\<close>
  t_silence :: "nat \<Rightarrow> int"  \<comment> \<open>the reading in \<open>createSilencePacket\<close> at loop index \<open>i\<close>\<close>

text \<open>
  The loop \<open>for (let i = 0; i < expectedPackets && this.packetQueue.length > 0; i++)\<close>,
  from index \<open>i\<close> on: it returns the queue that is left and the packets pushed.
\<close>

function flush_loop ::
  "(nat \<Rightarrow> int) \<Rightarrow> int \<Rightarrow> nat \<Rightarrow> nat \<Rightarrow> JitterBufferPacket list \<Rightarrow> JitterBufferPacket list
     \<Rightarrow> JitterBufferPacket list \<times> JitterBufferPacket list" where
  "flush_loop clk expSeq expectedPackets i queue packetsToFlush =
     (if i < expectedPackets \<and> queue \<noteq> [] then
        let expectedSeq = expSeq + int i
        in case findIndex (\<lambda>p. sequence p = expectedSeq) queue of
             Some packetIndex \<Rightarrow>
               flush_loop clk expSeq expectedPackets (Suc i) (splice1 packetIndex queue)
                 (packetsToFlush @ [queue ! packetIndex])
           | None \<Rightarrow>
               flush_loop clk expSeq expectedPackets (Suc i) queue
                 (packetsToFlush @ [createSilencePacket expectedSeq (clk i)])
      else (queue, packetsToFlush))"
  by pat_completeness auto
termination
  by (relation "measure (\<lambda>(clk, expSeq, expectedPackets, i, queue, out). expectedPackets - i)") auto

declare flush_loop.simps [simp del]

text \<open>\<open>flush\<close> returns the packets to decode and the updated buffer.
  \<open>Math.floor(timeSpan / 20)\<close> on integers is \<open>div\<close>, which rounds down.\<close>

definition flush :: "JitterBuffer \<Rightarrow> flush_clock \<Rightarrow> JitterBufferPacket list \<times> JitterBuffer" where
  "flush jb c =
     (if \<not> shouldFlush jb (t_check c) then ([], jb)
      else
        let jb1 = jb\<lparr>lastFlushTime := t_mark c\<rparr>;
            currentTime = t_span c;
            oldestTime = (case packetQueue jb1 of [] \<Rightarrow> currentTime | p # _ \<Rightarrow> bufferedAt p);
            timeSpan = currentTime - oldestTime;
            expectedPackets = max 1 (timeSpan div FRAME_DURATION_MS);
            (queue', packetsToFlush) =
               flush_loop (t_silence c) (expectedSequence jb1) (nat expectedPackets) 0
                 (packetQueue jb1) []
        in (packetsToFlush,
            jb1\<lparr>packetQueue := queue',
                expectedSequence := expectedSequence jb1 + expectedPackets\<rparr>))"

definition getQueueLength :: "JitterBuffer \<Rightarrow> nat" where
  "getQueueLength jb = length (packetQueue jb)"

definition clear :: "JitterBuffer \<Rightarrow> JitterBuffer" where
  "clear jb = jb\<lparr>packetQueue := [], lastFlushTime := 0, expectedSequence := 0,
                  isInitialized := False\<rparr>"

text \<open>
  A history of one buffer without \<open>clear\<close>: packets arrive (with the clock reading taken
  by \<open>bufferPacket\<close>) and \<open>flush\<close> is called, in any order. \<open>run\<close> threads the buffer
  through the calls and concatenates what the flushes return.
\<close>

datatype jb_call = BufferPacket JitterBufferPacket int | Flush flush_clock

fun run :: "jb_call list \<Rightarrow> JitterBuffer \<times> JitterBufferPacket list
              \<Rightarrow> JitterBuffer \<times> JitterBufferPacket list" where
  "run [] st = st"
| "run (BufferPacket packet now # calls) (jb, emitted) =
     run calls (bufferPacket jb packet now, emitted)"
| "run (Flush c # calls) (jb, emitted) =
     (let (out, jb') = flush jb c in run calls (jb', emitted @ out))"

text \<open>A clock for one \<open>flush\<close> during which the millisecond clock does not tick.\<close>

definition clock_at :: "int \<Rightarrow> flush_clock" where
  "clock_at now = \<lparr> t_check = now, t_mark = now, t_span = now, t_silence = (\<lambda>i. now) \<rparr>"

definition real_packet :: "int \<Rightarrow> JitterBufferPacket" where
  "real_packet seq =
     \<lparr> data = [0x78, 0x01], sequence = seq, media_timestamp = 960 * seq, bufferedAt = 0 \<rparr>"

text \<open>
  The description of one \<open>flush\<close> that the loop is compared with. \<open>slot_frame\<close> is what
  slot \<open>j\<close> must produce from the queue as it was when \<open>flush\<close> was called: the first
  buffered packet numbered \<open>expectedSequence + j\<close>, or else a silence packet carrying
  that number. \<open>remove_slot\<close> takes that packet out of the queue, and \<open>queue_after\<close>
  does so for a run of slots.
\<close>

definition slot_frame ::
  "(nat \<Rightarrow> int) \<Rightarrow> int \<Rightarrow> JitterBufferPacket list \<Rightarrow> nat \<Rightarrow> JitterBufferPacket" where
  "slot_frame clk expSeq queue j =
     (case find (\<lambda>p. sequence p = expSeq + int j) queue of
        Some p \<Rightarrow> p
      | None \<Rightarrow> createSilencePacket (expSeq + int j) (clk j))"

definition remove_slot :: "int \<Rightarrow> nat \<Rightarrow> JitterBufferPacket list \<Rightarrow> JitterBufferPacket list" where
  "remove_slot expSeq j queue =
     (case find (\<lambda>p. sequence p = expSeq + int j) queue of
        Some p \<Rightarrow> remove1 p queue
      | None \<Rightarrow> queue)"

definition queue_after :: "int \<Rightarrow> JitterBufferPacket list \<Rightarrow> nat list \<Rightarrow> JitterBufferPacket list" where
  "queue_after expSeq queue js = fold (remove_slot expSeq) js queue"

text \<open>The number of frame slots that \<open>flush\<close> computes from the clock reading \<open>now\<close>.\<close>

definition elapsed_slots :: "JitterBuffer \<Rightarrow> int \<Rightarrow> nat" where
  "elapsed_slots jb now =
     nat (max 1 ((now - bufferedAt (hd (packetQueue jb))) div FRAME_DURATION_MS))"

text \<open>Concrete buffers and histories used to exercise the theorems below.\<close>

definition jb_4_7 :: JitterBuffer where
  "jb_4_7 = \<lparr> packetQueue = [real_packet 4, real_packet 7], lastFlushTime = 0,
              expectedSequence = 4, isInitialized = True \<rparr>"


definition stale_calls :: "jb_call list" where
  "stale_calls =
     [BufferPacket (real_packet 10) 0, Flush (clock_at 20),
      BufferPacket (real_packet 5) 30, BufferPacket (real_packet 3) 40]"

definition later_calls :: "jb_call list" where
  "later_calls = [Flush (clock_at 60), BufferPacket (real_packet 12) 70, Flush (clock_at 80)]"

definition reorder_calls :: "jb_call list" where
  "reorder_calls =
     [BufferPacket (real_packet 4) 0, BufferPacket (real_packet 6) 5,
      BufferPacket (real_packet 5) 10, BufferPacket (real_packet 5) 12,
      Flush (clock_at 60), Flush (clock_at 80)]"

text \<open>
  Invariants of a history. \<open>emitted_ok\<close>: an uninitialised buffer is empty and has emitted
  nothing, and what was emitted is strictly increasing and below \<open>expectedSequence\<close>.
  \<open>queue_ok\<close>: an uninitialised buffer is empty and the queue is sorted by sequence
  number. \<open>stale_kept\<close>: the packet \<open>p\<close> is still queued and everything emitted since
  carries a sequence number of at least \<open>es0\<close>.
\<close>

definition emitted_ok :: "JitterBuffer \<times> JitterBufferPacket list \<Rightarrow> bool" where
  "emitted_ok st =
     (case st of (jb, emitted) \<Rightarrow>
        (\<not> isInitialized jb \<longrightarrow> packetQueue jb = [] \<and> emitted = []) \<and>
        sorted_wrt (<) (map sequence emitted) \<and>
        (\<forall>x \<in> set emitted. sequence x < expectedSequence jb))"

definition queue_ok :: "JitterBuffer \<Rightarrow> bool" where
  "queue_ok jb =
     ((\<not> isInitialized jb \<longrightarrow> packetQueue jb = []) \<and> sorted (map sequence (packetQueue jb)))"

definition stale_kept ::
  "JitterBufferPacket \<Rightarrow> int \<Rightarrow> JitterBuffer \<times> JitterBufferPacket list \<Rightarrow> bool" where
  "stale_kept p es0 st =
     (case st of (jb, later) \<Rightarrow>
        isInitialized jb \<and> p \<in> set (packetQueue jb) \<and> es0 \<le> expectedSequence jb \<and>
        sorted (map sequence (packetQueue jb)) \<and> (\<forall>x \<in> set later. es0 \<le> sequence x))"

section \<open>Stream decoder adapter (class UserStreamHandler)\<close>

definition OPUS_SAMPLE_RATE :: nat where "OPUS_SAMPLE_RATE = 48000"
definition OPUS_FRAME_DURATION :: nat where "OPUS_FRAME_DURATION = 20"
definition CHANNELS :: nat where "CHANNELS = 2"

text \<open>
  The fields of the handler that \<open>processJitterBuffer\<close> touches. The Opus decoder is an
  external object with a state of its own: \<open>decode\<close> takes that state and the encoded
  frame and either returns PCM or throws, and leaves a new state. The PCM write stream
  is the list of blocks written so far.
\<close>

datatype decode_error = DecodeError

type_synonym 'd decoder = "'d \<Rightarrow> buffer \<Rightarrow> (decode_error + buffer) \<times> 'd"

record 'd UserStreamHandler =
  isActive :: bool
  jitterBuffer :: JitterBuffer
  opusDecoder :: 'd
  pcmStream :: "buffer list"

text \<open>The body of the \<open>try\<close> block: decode, then write. A throw leaves the handler as it
  is at that point, with nothing written.\<close>

definition decode_and_write ::
  "'d decoder \<Rightarrow> 'd UserStreamHandler \<Rightarrow> JitterBufferPacket
     \<Rightarrow> (decode_error \<times> 'd UserStreamHandler) + 'd UserStreamHandler" where
  "decode_and_write decode h packet =
     (case decode (opusDecoder h) (data packet) of
        (Inr pcmData, d') \<Rightarrow> Inr (h\<lparr>opusDecoder := d', pcmStream := pcmStream h @ [pcmData]\<rparr>)
      | (Inl err, d') \<Rightarrow> Inl (err, h\<lparr>opusDecoder := d'\<rparr>))"

text \<open>One iteration of the \<open>for\<close> loop: the \<open>try\<close> block with its \<open>catch\<close>, which writes
  \<open>Buffer.alloc(3840, 0)\<close>.\<close>

definition process_packet ::
  "'d decoder \<Rightarrow> 'd UserStreamHandler \<Rightarrow> JitterBufferPacket
     \<Rightarrow> decode_error + 'd UserStreamHandler" where
  "process_packet decode h packet =
     (case decode_and_write decode h packet of
        Inr h' \<Rightarrow> Inr h'
      | Inl (err, h') \<Rightarrow>
          let silenceBuffer = replicate 3840 (0 :: byte)
          in Inr (h'\<lparr>pcmStream := pcmStream h' @ [silenceBuffer]\<rparr>))"

fun process_packets ::
  "'d decoder \<Rightarrow> 'd UserStreamHandler \<Rightarrow> JitterBufferPacket list
     \<Rightarrow> decode_error + 'd UserStreamHandler" where
  "process_packets decode h [] = Inr h"
| "process_packets decode h (packet # rest) =
     (case process_packet decode h packet of
        Inl err \<Rightarrow> Inl err
      | Inr h' \<Rightarrow> process_packets decode h' rest)"

definition processJitterBuffer ::
  "'d decoder \<Rightarrow> 'd UserStreamHandler \<Rightarrow> flush_clock \<Rightarrow> decode_error + 'd UserStreamHandler" where
  "processJitterBuffer decode h c =
     (if \<not> isActive h then Inr h
      else
        let (pkts, jb') = flush (jitterBuffer h) c
        in process_packets decode (h\<lparr>jitterBuffer := jb'\<rparr>) pkts)"

text \<open>
  What the decoder answers on each frame of a list, in order, starting from a decoder
  state; and the PCM block that stands for an answer.
\<close>

fun decode_results :: "'d decoder \<Rightarrow> 'd \<Rightarrow> JitterBufferPacket list \<Rightarrow> (decode_error + buffer) list" where
  "decode_results decode d [] = []"
| "decode_results decode d (packet # rest) =
     (case decode d (data packet) of (r, d') \<Rightarrow> r # decode_results decode d' rest)"

definition block_of :: "decode_error + buffer \<Rightarrow> buffer" where
  "block_of r = (case r of Inr pcmData \<Rightarrow> pcmData | Inl err \<Rightarrow> replicate 3840 0)"

text \<open>A decoder without state that rejects the three-byte silence frame of
  \<open>createSilencePacket\<close> and answers four bytes of PCM on anything else.\<close>

definition strict_decoder :: "unit decoder" where
  "strict_decoder d frame =
     (if frame = [0xF8, 0xFF, 0xFE] then (Inl DecodeError, d) else (Inr [1, 2, 3, 4], d))"

definition handler_4_7 :: "unit UserStreamHandler" where
  "handler_4_7 = \<lparr> isActive = True, jitterBuffer = jb_4_7, opusDecoder = (), pcmStream = [] \<rparr>"

section \<open>Drift corrector (class DriftCorrector)\<close>





definition DRIFT_THRESHOLD_MS :: real where "DRIFT_THRESHOLD_MS = 10"







text \<open>
  \<open>correctDrift\<close> hands one job to FFmpeg, whose argument list is fixed but for the input
  file, the tempo factor and the output file. \<open>exec\<close> tells whether FFmpeg exits with
  code 0; \<open>outputFile\<close> is the path \<open>join(outputDir, `corrected_${Date.now()}.pcm`)\<close>.
  The result is the promise's outcome and the list of jobs requested.
\<close>

record ffmpeg_job =
  job_input :: string
  job_atempo :: real
  job_output :: string

datatype ffmpeg_error = FFmpegFailed

definition correctDrift ::
  "(ffmpeg_job \<Rightarrow> bool) \<Rightarrow> string \<Rightarrow> real \<Rightarrow> string \<Rightarrow> (ffmpeg_error + string) \<times> ffmpeg_job list" where
  "correctDrift exec inputFile driftMs' outputFile =
     (if \<bar>driftMs'\<bar> < DRIFT_THRESHOLD_MS then (Inr inputFile, [])
      else
        let stretchFactor = 1.0 - driftMs' / 1000;
            clampedFactor = max 0.95 (min 1.05 stretchFactor);
            job = \<lparr> job_input = inputFile, job_atempo = clampedFactor, job_output = outputFile \<rparr>
        in (if exec job then Inr outputFile else Inl FFmpegFailed, [job]))"

text \<open>Clamping into an interval, as the specification words it.\<close>

definition clamp :: "real \<Rightarrow> real \<Rightarrow> real \<Rightarrow> real" where
  "clamp lo hi x = (if x < lo then lo else if hi < x then hi else x)"

section \<open>Timeline and mix planner (class AudioMixer)\<close>












section \<open>Theorems\<close>

subsection \<open>RTP header codec\<close>

lemma readUInt16BE_in_range:
  "off + 2 \<le> length buf \<Longrightarrow> \<exists>v. readUInt16BE buf off = Inr v"
  by (simp add: readUInt16BE_def)

lemma readUInt32BE_in_range:
  "off + 4 \<le> length buf \<Longrightarrow> \<exists>v. readUInt32BE buf off = Inr v"
  by (simp add: readUInt32BE_def)

text \<open>
  C9. \<open>parseRtpHeader\<close> fails, with the header-too-small error, on every buffer of fewer
  than 12 bytes, and returns a header on every buffer of at least 12 bytes: the length
  check is the only way to fail, whatever the field values are.
\<close>

theorem parseRtpHeader_fails_iff_short:
  "(length buf < 12 \<longrightarrow> parseRtpHeader buf = Inl HeaderTooSmall) \<and>
   (12 \<le> length buf \<longrightarrow> (\<exists>h. parseRtpHeader buf = Inr h))"
proof (intro conjI impI)
  assume "length buf < 12"
  then show "parseRtpHeader buf = Inl HeaderTooSmall"
    by (simp add: parseRtpHeader_def)
next
  assume len: "12 \<le> length buf"
  then obtain s t c where
    "readUInt16BE buf 2 = Inr s" "readUInt32BE buf 4 = Inr t" "readUInt32BE buf 8 = Inr c"
    using readUInt16BE_in_range [of 2 buf] readUInt32BE_in_range [of 4 buf]
      readUInt32BE_in_range [of 8 buf]
    by auto
  with len show "\<exists>h. parseRtpHeader buf = Inr h"
    by (simp add: parseRtpHeader_def Let_def)
qed

theorem parseRtpHeader_fails_iff_short_witness:
  "length short_packet < 12 \<and> parseRtpHeader short_packet = Inl HeaderTooSmall \<and>
   12 \<le> length version3_packet \<and> (\<exists>h. parseRtpHeader version3_packet = Inr h)"
proof -
  have a: "length short_packet < 12" by (simp add: short_packet_def)
  have b: "12 \<le> length version3_packet" by (simp add: version3_packet_def)
  from a b parseRtpHeader_fails_iff_short [of short_packet]
    parseRtpHeader_fails_iff_short [of version3_packet]
  show ?thesis by blast
qed

text \<open>
  C5. On the 16-byte packet above the extension flag is set and the declared extension
  length puts the payload start at offset 20, past the end of the buffer; the code
  does not fail there but returns an empty payload.
\<close>

theorem extractOpusPayload_truncated_extension:
  "length truncated_extension_packet = 16 \<and>
   map_sum id extension (parseRtpHeader truncated_extension_packet) = Inr True \<and>
   readUInt16BE truncated_extension_packet 14 = Inr 1 \<and>
   extractOpusPayload truncated_extension_packet = Inr []"
  by (simp add: truncated_extension_packet_def extractOpusPayload_def parseRtpHeader_def
      readUInt16BE_def readUInt32BE_def Let_def)

subsection \<open>Jitter buffer\<close>

lemma findIndex_Some:
  "findIndex P xs = Some k \<Longrightarrow> k < length xs \<and> P (xs ! k) \<and> find P xs = Some (xs ! k)"
proof (induction xs arbitrary: k)
  case Nil
  then show ?case by simp
next
  case (Cons x xs)
  then show ?case by (auto split: if_splits)
qed

lemma findIndex_None: "findIndex P xs = None \<Longrightarrow> find P xs = None"
  by (induction xs) (auto split: if_splits)

lemma findIndex_splice1:
  "findIndex P xs = Some k \<Longrightarrow> splice1 k xs = remove1 (xs ! k) xs"
proof (induction xs arbitrary: k)
  case Nil
  then show ?case by simp
next
  case (Cons x xs)
  show ?case
  proof (cases "P x")
    case True
    with Cons.prems show ?thesis by (simp add: splice1_def)
  next
    case False
    with Cons.prems obtain k' where k: "findIndex P xs = Some k'" "k = Suc k'"
      by auto
    from findIndex_Some [OF k(1)] have "P (xs ! k')" by simp
    with False have "xs ! k' \<noteq> x" by auto
    with Cons.IH [OF k(1)] k(2) show ?thesis
      by (simp add: splice1_def)
  qed
qed

lemma find_remove1_other:
  "\<not> Q y \<Longrightarrow> find Q (remove1 y xs) = find Q xs"
  by (induction xs) auto

lemma remove_slot_findIndex_Some:
  "findIndex (\<lambda>p. sequence p = es + int i) q = Some k \<Longrightarrow> remove_slot es i q = splice1 k q"
  by (simp add: remove_slot_def findIndex_Some findIndex_splice1)

lemma remove_slot_findIndex_None:
  "findIndex (\<lambda>p. sequence p = es + int i) q = None \<Longrightarrow> remove_slot es i q = q"
  by (simp add: remove_slot_def findIndex_None)

lemma slot_frame_findIndex_Some:
  "findIndex (\<lambda>p. sequence p = es + int i) q = Some k \<Longrightarrow> slot_frame clk es q i = q ! k"
  by (simp add: slot_frame_def findIndex_Some)

lemma slot_frame_findIndex_None:
  "findIndex (\<lambda>p. sequence p = es + int i) q = None \<Longrightarrow>
     slot_frame clk es q i = createSilencePacket (es + int i) (clk i)"
  by (simp add: slot_frame_def findIndex_None)

lemma slot_frame_remove_slot:
  "i \<noteq> j \<Longrightarrow> slot_frame clk es (remove_slot es i q) j = slot_frame clk es q j"
proof (cases "find (\<lambda>p. sequence p = es + int i) q")
  case None
  then show ?thesis by (simp add: remove_slot_def)
next
  case (Some p)
  assume "i \<noteq> j"
  from Some have "sequence p = es + int i" by (auto simp: find_Some_iff)
  with \<open>i \<noteq> j\<close> have "\<not> (\<lambda>p. sequence p = es + int j) p" by simp
  then have "find (\<lambda>p. sequence p = es + int j) (remove1 p q) = find (\<lambda>p. sequence p = es + int j) q"
    by (rule find_remove1_other)
  with Some show ?thesis by (simp add: remove_slot_def slot_frame_def)
qed

lemma queue_after_Cons: "queue_after es q (j # js) = queue_after es (remove_slot es j q) js"
  by (simp add: queue_after_def)

lemma queue_after_Nil: "queue_after es q [] = q"
  by (simp add: queue_after_def)

lemma flush_loop_spec:
  "flush_loop clk es n i q out = (q', out') \<Longrightarrow>
   \<exists>k. i + k \<le> max i n \<and>
       out' = out @ map (slot_frame clk es q) [i..<i + k] \<and>
       q' = queue_after es q [i..<i + k] \<and>
       (i + k < n \<longrightarrow> q' = []) \<and>
       (\<forall>m<k. queue_after es q [i..<i + m] \<noteq> [])"
proof (induction clk es n i q out arbitrary: q' out' rule: flush_loop.induct)
  case (1 clk es n i q out)
  show ?case
  proof (cases "i < n \<and> q \<noteq> []")
    case False
    with "1.prems" have "q' = q" "out' = out"
      by (simp_all add: flush_loop.simps)
    with False show ?thesis
      by (intro exI [of _ 0]) (auto simp: queue_after_Nil)
  next
    case True
    define q1 where "q1 = remove_slot es i q"
    define f where "f = slot_frame clk es q i"
    have step: "flush_loop clk es n (Suc i) q1 (out @ [f]) = (q', out')"
    proof (cases "findIndex (\<lambda>p. sequence p = es + int i) q")
      case None
      with True "1.prems" show ?thesis
        by (simp add: flush_loop.simps [of clk es n i] q1_def f_def
            remove_slot_findIndex_None slot_frame_findIndex_None)
    next
      case (Some k)
      with True "1.prems" show ?thesis
        by (simp add: flush_loop.simps [of clk es n i] q1_def f_def
            remove_slot_findIndex_Some slot_frame_findIndex_Some)
    qed
    have "\<exists>k. Suc i + k \<le> max (Suc i) n \<and>
       out' = (out @ [f]) @ map (slot_frame clk es q1) [Suc i..<Suc i + k] \<and>
       q' = queue_after es q1 [Suc i..<Suc i + k] \<and>
       (Suc i + k < n \<longrightarrow> q' = []) \<and>
       (\<forall>m<k. queue_after es q1 [Suc i..<Suc i + m] \<noteq> [])"
    proof (cases "findIndex (\<lambda>p. sequence p = es + int i) q")
      case None
      have "q1 = q" "createSilencePacket (es + int i) (clk i) = f"
        using None by (simp_all add: q1_def f_def remove_slot_findIndex_None slot_frame_findIndex_None)
      with "1.IH"(1) [OF True refl None, of q' out'] step show ?thesis
        by simp
    next
      case (Some k)
      have "splice1 k q = q1" "q ! k = f"
        using Some by (simp_all add: q1_def f_def remove_slot_findIndex_Some slot_frame_findIndex_Some)
      with "1.IH"(2) [OF True refl Some, of q' out'] step show ?thesis
        by simp
    qed
    then obtain k where k: "Suc i + k \<le> max (Suc i) n"
       "out' = (out @ [f]) @ map (slot_frame clk es q1) [Suc i..<Suc i + k]"
       "q' = queue_after es q1 [Suc i..<Suc i + k]"
       "Suc i + k < n \<longrightarrow> q' = []"
       "\<forall>m<k. queue_after es q1 [Suc i..<Suc i + m] \<noteq> []"
      by blast
    have same: "map (slot_frame clk es q1) [Suc i..<Suc i + k] = map (slot_frame clk es q) [Suc i..<Suc i + k]"
    proof (rule map_cong [OF refl])
      fix j assume "j \<in> set [Suc i..<Suc i + k]"
      then have "i \<noteq> j" by auto
      then show "slot_frame clk es q1 j = slot_frame clk es q j"
        unfolding q1_def by (rule slot_frame_remove_slot)
    qed
    have upt: "\<And>m. [i..<i + Suc m] = i # [Suc i..<Suc i + m]"
      by (simp add: upt_conv_Cons)
    have "i + Suc k \<le> max i n" using k(1) True by simp
    moreover have "out' = out @ map (slot_frame clk es q) [i..<i + Suc k]"
      unfolding upt list.map k(2) same f_def by (simp only: append_assoc append_Cons append_Nil)
    moreover have "q' = queue_after es q [i..<i + Suc k]"
      unfolding upt queue_after_Cons k(3) q1_def ..
    moreover have "i + Suc k < n \<longrightarrow> q' = []"
      using k(4) by simp
    moreover have "\<forall>m<Suc k. queue_after es q [i..<i + m] \<noteq> []"
    proof (intro allI impI)
      fix m assume "m < Suc k"
      show "queue_after es q [i..<i + m] \<noteq> []"
      proof (cases m)
        case 0
        with True show ?thesis by (simp add: queue_after_Nil)
      next
        case (Suc m')
        with \<open>m < Suc k\<close> k(5) have "queue_after es q1 [Suc i..<Suc i + m'] \<noteq> []" by simp
        then show ?thesis unfolding Suc upt queue_after_Cons q1_def .
      qed
    qed
    ultimately show ?thesis by blast
  qed
qed

lemma shouldFlush_nonempty: "shouldFlush jb now \<Longrightarrow> packetQueue jb \<noteq> []"
  by (auto simp: shouldFlush_def)

lemma elapsed_slots_pos: "1 \<le> elapsed_slots jb now"
  by (simp add: elapsed_slots_def)

lemma int_elapsed_slots:
  "int (elapsed_slots jb now) = max 1 ((now - bufferedAt (hd (packetQueue jb))) div FRAME_DURATION_MS)"
  by (simp add: elapsed_slots_def)

lemma flush_idle: "\<not> shouldFlush jb (t_check c) \<Longrightarrow> flush jb c = ([], jb)"
  by (simp add: flush_def)

lemma flush_spec:
  assumes sf: "shouldFlush jb (t_check c)"
  shows "\<exists>k. 1 \<le> k \<and> k \<le> elapsed_slots jb (t_span c) \<and>
      flush jb c =
        (map (slot_frame (t_silence c) (expectedSequence jb) (packetQueue jb)) [0..<k],
         jb\<lparr>lastFlushTime := t_mark c,
            packetQueue := queue_after (expectedSequence jb) (packetQueue jb) [0..<k],
            expectedSequence := expectedSequence jb + int (elapsed_slots jb (t_span c))\<rparr>) \<and>
      (k < elapsed_slots jb (t_span c) \<longrightarrow>
         queue_after (expectedSequence jb) (packetQueue jb) [0..<k] = []) \<and>
      (\<forall>m<k. queue_after (expectedSequence jb) (packetQueue jb) [0..<m] \<noteq> [])"
proof -
  define N where "N = elapsed_slots jb (t_span c)"
  define es where "es = expectedSequence jb"
  define q where "q = packetQueue jb"
  from sf have ne: "q \<noteq> []" unfolding q_def by (rule shouldFlush_nonempty)
  have N1: "1 \<le> N" unfolding N_def by (rule elapsed_slots_pos)
  obtain q' out' where loop: "flush_loop (t_silence c) es N 0 q [] = (q', out')"
    by (cases "flush_loop (t_silence c) es N 0 q []") blast
  from flush_loop_spec [OF loop] obtain k where k:
    "0 + k \<le> max 0 N" "out' = [] @ map (slot_frame (t_silence c) es q) [0..<0 + k]"
    "q' = queue_after es q [0..<0 + k]" "0 + k < N \<longrightarrow> q' = []"
    "\<forall>m<k. queue_after es q [0..<0 + m] \<noteq> []"
    by blast
  have k1: "1 \<le> k"
  proof (rule ccontr)
    assume "\<not> 1 \<le> k"
    then have "k = 0" by simp
    with k(3,4) N1 ne show False by (simp add: queue_after_Nil)
  qed
  from ne obtain p ps where q: "packetQueue jb = p # ps"
    unfolding q_def by (cases "packetQueue jb") auto
  have Nint: "max 1 ((t_span c - bufferedAt p) div FRAME_DURATION_MS) = int N"
    unfolding N_def by (simp add: int_elapsed_slots q)
  have Nnat: "nat (max 1 ((t_span c - bufferedAt p) div FRAME_DURATION_MS)) = N"
    unfolding N_def by (simp add: elapsed_slots_def q)
  have "flush jb c = (out', jb\<lparr>lastFlushTime := t_mark c, packetQueue := q',
            expectedSequence := es + int N\<rparr>)"
  proof -
    have loop': "flush_loop (t_silence c) (expectedSequence jb) N 0 (p # ps) [] = (q', out')"
      using loop by (simp add: es_def q_def q)
    show ?thesis
      using sf by (simp add: flush_def Let_def q Nint Nnat es_def loop')
  qed
  with k k1 show ?thesis
    unfolding N_def es_def q_def by (intro exI [of _ k]) simp
qed

lemma sequence_slot_frame: "sequence (slot_frame clk es q j) = es + int j"
proof (cases "find (\<lambda>p. sequence p = es + int j) q")
  case None
  then show ?thesis by (simp add: slot_frame_def createSilencePacket_def)
next
  case (Some p)
  then have "sequence p = es + int j" by (auto simp: find_Some_iff)
  with Some show ?thesis by (simp add: slot_frame_def)
qed








lemma flush_sequences:
  assumes "flush jb c = (out, jb')"
  shows "\<exists>k. map sequence out = map (\<lambda>j. expectedSequence jb + int j) [0..<k] \<and>
             expectedSequence jb + int k \<le> expectedSequence jb' \<and>
             isInitialized jb' = isInitialized jb \<and>
             (packetQueue jb = [] \<longrightarrow> out = [] \<and> jb' = jb)"
proof (cases "shouldFlush jb (t_check c)")
  case False
  with assms have "out = []" "jb' = jb" by (simp_all add: flush_idle)
  then show ?thesis by (intro exI [of _ 0]) simp
next
  case True
  from flush_spec [OF True] assms obtain k where k: "k \<le> elapsed_slots jb (t_span c)"
    "out = map (slot_frame (t_silence c) (expectedSequence jb) (packetQueue jb)) [0..<k]"
    "jb' = jb\<lparr>lastFlushTime := t_mark c,
            packetQueue := queue_after (expectedSequence jb) (packetQueue jb) [0..<k],
            expectedSequence := expectedSequence jb + int (elapsed_slots jb (t_span c))\<rparr>"
    by auto
  from True have ne: "packetQueue jb \<noteq> []" by (rule shouldFlush_nonempty)
  have "map sequence out = map (\<lambda>j. expectedSequence jb + int j) [0..<k]"
    unfolding k(2) by (simp add: sequence_slot_frame)
  with k(1,3) ne show ?thesis by (intro exI [of _ k]) simp
qed

lemma sorted_wrt_offsets: "sorted_wrt (<) (map (\<lambda>j. es + int j) [i..<n])"
  by (simp add: sorted_wrt_map sorted_wrt_iff_nth_less)

lemma emitted_ok_bufferPacket:
  "emitted_ok (jb, emitted) \<Longrightarrow> emitted_ok (bufferPacket jb packet now, emitted)"
  by (auto simp: emitted_ok_def bufferPacket_def Let_def)

lemma emitted_ok_flush:
  assumes ok: "emitted_ok (jb, emitted)" and fl: "flush jb c = (out, jb')"
  shows "emitted_ok (jb', emitted @ out)"
proof -
  from flush_sequences [OF fl] obtain k where k:
    "map sequence out = map (\<lambda>j. expectedSequence jb + int j) [0..<k]"
    "expectedSequence jb + int k \<le> expectedSequence jb'"
    "isInitialized jb' = isInitialized jb"
    "packetQueue jb = [] \<longrightarrow> out = [] \<and> jb' = jb"
    by blast
  have out_set: "set (map sequence out) = (\<lambda>j. expectedSequence jb + int j) ` {0..<k}"
    unfolding k(1) by simp
  have lower: "expectedSequence jb \<le> sequence y" and upper: "sequence y < expectedSequence jb'"
    if "y \<in> set out" for y
  proof -
    from that have "sequence y \<in> set (map sequence out)" by simp
    then obtain j where "j < k" "sequence y = expectedSequence jb + int j"
      unfolding out_set by auto
    with k(2) show "expectedSequence jb \<le> sequence y" "sequence y < expectedSequence jb'"
      by simp_all
  qed
  have "sorted_wrt (<) (map sequence out)"
    unfolding k(1) by (rule sorted_wrt_offsets)
  moreover have "sorted_wrt (<) (map sequence emitted)"
    using ok by (simp add: emitted_ok_def)
  moreover have "\<forall>x\<in>set emitted. \<forall>y\<in>set out. sequence x < sequence y"
    using ok lower by (fastforce simp: emitted_ok_def)
  ultimately have sorted: "sorted_wrt (<) (map sequence (emitted @ out))"
    by (simp add: sorted_wrt_append)
  have bound: "\<forall>x\<in>set (emitted @ out). sequence x < expectedSequence jb'"
  proof
    fix x assume "x \<in> set (emitted @ out)"
    then consider "x \<in> set emitted" | "x \<in> set out" by auto
    then show "sequence x < expectedSequence jb'"
    proof cases
      case 1
      with ok have "sequence x < expectedSequence jb" by (simp add: emitted_ok_def)
      with k(2) show ?thesis by simp
    next
      case 2
      then show ?thesis by (rule upper)
    qed
  qed
  have init: "\<not> isInitialized jb' \<longrightarrow> packetQueue jb' = [] \<and> emitted @ out = []"
    using ok k(3,4) by (auto simp: emitted_ok_def)
  from sorted bound init show ?thesis by (simp add: emitted_ok_def)
qed

lemma emitted_ok_run: "emitted_ok st \<Longrightarrow> emitted_ok (run calls st)"
proof (induction calls arbitrary: st)
  case Nil
  then show ?case by simp
next
  case (Cons call calls)
  obtain jb emitted where st: "st = (jb, emitted)" by (cases st)
  show ?case
  proof (cases call)
    case (BufferPacket packet now)
    with Cons st show ?thesis by (simp add: emitted_ok_bufferPacket)
  next
    case (Flush c)
    obtain out jb' where fl: "flush jb c = (out, jb')" by (cases "flush jb c")
    with Cons.prems st have "emitted_ok (jb', emitted @ out)" by (simp add: emitted_ok_flush)
    then have "emitted_ok (run calls (jb', emitted @ out))" by (rule Cons.IH)
    with Flush st fl show ?thesis by simp
  qed
qed

text \<open>
  C2. Over any history of \<open>bufferPacket\<close> and \<open>flush\<close> calls on a new buffer, the
  concatenation of everything the flushes return is strictly increasing in sequence
  number; no two emitted frames, real or silence, carry the same number.
\<close>

theorem emitted_strictly_increasing:
  "sorted_wrt (<) (map sequence (snd (run calls (new_JitterBuffer, [])))) \<and>
   distinct (map sequence (snd (run calls (new_JitterBuffer, []))))"
proof -
  have "emitted_ok (new_JitterBuffer, [])"
    by (simp add: emitted_ok_def new_JitterBuffer_def)
  then have "emitted_ok (run calls (new_JitterBuffer, []))" by (rule emitted_ok_run)
  then have "sorted_wrt (<) (map sequence (snd (run calls (new_JitterBuffer, []))))"
    by (simp add: emitted_ok_def split: prod.splits)
  then show ?thesis by (simp add: strict_sorted_iff)
qed

lemma remove_slot_keeps:
  "p \<in> set q \<Longrightarrow> sequence p < es \<Longrightarrow> p \<in> set (remove_slot es j q)"
proof (cases "find (\<lambda>x. sequence x = es + int j) q")
  case None
  assume "p \<in> set q"
  with None show ?thesis by (simp add: remove_slot_def)
next
  case (Some x)
  assume p: "p \<in> set q" "sequence p < es"
  from Some have "sequence x = es + int j" by (auto simp: find_Some_iff)
  with p(2) have "p \<noteq> x" by auto
  with p(1) Some show ?thesis by (simp add: remove_slot_def)
qed

lemma remove_slot_sorted:
  "sorted (map sequence q) \<Longrightarrow> sorted (map sequence (remove_slot es j q))"
  by (simp add: remove_slot_def sorted_map_remove1 split: option.splits)

lemma queue_after_keeps:
  "p \<in> set q \<Longrightarrow> sequence p < es \<Longrightarrow> p \<in> set (queue_after es q js)"
proof (induction js arbitrary: q)
  case Nil
  then show ?case by (simp add: queue_after_Nil)
next
  case (Cons j js)
  then show ?case by (simp add: queue_after_Cons remove_slot_keeps)
qed

lemma queue_after_sorted:
  "sorted (map sequence q) \<Longrightarrow> sorted (map sequence (queue_after es q js))"
proof (induction js arbitrary: q)
  case Nil
  then show ?case by (simp add: queue_after_Nil)
next
  case (Cons j js)
  then show ?case by (simp add: queue_after_Cons remove_slot_sorted)
qed

lemma queue_ok_bufferPacket: "queue_ok (bufferPacket jb packet now)"
  by (simp add: queue_ok_def bufferPacket_def Let_def)

lemma queue_ok_flush:
  assumes "queue_ok jb" and fl: "flush jb c = (out, jb')"
  shows "queue_ok jb'"
proof (cases "shouldFlush jb (t_check c)")
  case False
  with assms show ?thesis by (simp add: flush_idle)
next
  case True
  from flush_spec [OF True] fl obtain k where
    "jb' = jb\<lparr>lastFlushTime := t_mark c,
            packetQueue := queue_after (expectedSequence jb) (packetQueue jb) [0..<k],
            expectedSequence := expectedSequence jb + int (elapsed_slots jb (t_span c))\<rparr>"
    by auto
  moreover from True have "packetQueue jb \<noteq> []" by (rule shouldFlush_nonempty)
  ultimately show ?thesis
    using assms(1) by (auto simp: queue_ok_def queue_after_sorted)
qed

lemma queue_ok_run: "queue_ok (fst st) \<Longrightarrow> queue_ok (fst (run calls st))"
proof (induction calls arbitrary: st)
  case Nil
  then show ?case by simp
next
  case (Cons call calls)
  obtain jb emitted where st: "st = (jb, emitted)" by (cases st)
  show ?case
  proof (cases call)
    case (BufferPacket packet now)
    have "queue_ok (fst (run calls (bufferPacket jb packet now, emitted)))"
      by (rule Cons.IH) (simp add: queue_ok_bufferPacket)
    with BufferPacket st show ?thesis by simp
  next
    case (Flush c)
    obtain out jb' where fl: "flush jb c = (out, jb')" by (cases "flush jb c")
    with Cons.prems st have "queue_ok jb'" by (simp add: queue_ok_flush)
    then have "queue_ok (fst (run calls (jb', emitted @ out)))" by (intro Cons.IH) simp
    with Flush st fl show ?thesis by simp
  qed
qed

lemma stale_kept_bufferPacket:
  "stale_kept p es0 (jb, later) \<Longrightarrow> stale_kept p es0 (bufferPacket jb packet now, later)"
  by (simp add: stale_kept_def bufferPacket_def Let_def)

lemma stale_kept_flush:
  assumes sk: "stale_kept p es0 (jb, later)" and st: "sequence p < es0"
    and fl: "flush jb c = (out, jb')"
  shows "stale_kept p es0 (jb', later @ out)"
proof (cases "shouldFlush jb (t_check c)")
  case False
  with sk fl show ?thesis by (simp add: flush_idle)
next
  case True
  from flush_spec [OF True] fl obtain k where k:
    "out = map (slot_frame (t_silence c) (expectedSequence jb) (packetQueue jb)) [0..<k]"
    "jb' = jb\<lparr>lastFlushTime := t_mark c,
            packetQueue := queue_after (expectedSequence jb) (packetQueue jb) [0..<k],
            expectedSequence := expectedSequence jb + int (elapsed_slots jb (t_span c))\<rparr>"
    by auto
  from sk have inv: "isInitialized jb" "p \<in> set (packetQueue jb)" "es0 \<le> expectedSequence jb"
    "sorted (map sequence (packetQueue jb))" "\<forall>x \<in> set later. es0 \<le> sequence x"
    by (simp_all add: stale_kept_def)
  from inv(2,3) st have "p \<in> set (queue_after (expectedSequence jb) (packetQueue jb) [0..<k])"
    by (intro queue_after_keeps) simp_all
  moreover have "\<forall>x \<in> set out. es0 \<le> sequence x"
    using inv(3) unfolding k(1) by (auto simp: sequence_slot_frame)
  ultimately show ?thesis
    using inv by (auto simp: stale_kept_def k(2) queue_after_sorted)
qed

lemma stale_kept_run:
  "stale_kept p es0 st \<Longrightarrow> sequence p < es0 \<Longrightarrow> stale_kept p es0 (run calls st)"
proof (induction calls arbitrary: st)
  case Nil
  then show ?case by simp
next
  case (Cons call calls)
  obtain jb later where st: "st = (jb, later)" by (cases st)
  show ?case
  proof (cases call)
    case (BufferPacket packet now)
    from Cons.prems st have "stale_kept p es0 (bufferPacket jb packet now, later)"
      by (simp add: stale_kept_bufferPacket)
    then have "stale_kept p es0 (run calls (bufferPacket jb packet now, later))"
      using Cons.prems(2) by (rule Cons.IH)
    with BufferPacket st show ?thesis by simp
  next
    case (Flush c)
    obtain out jb' where fl: "flush jb c = (out, jb')" by (cases "flush jb c")
    from Cons.prems st fl have "stale_kept p es0 (jb', later @ out)"
      by (simp add: stale_kept_flush)
    then have "stale_kept p es0 (run calls (jb', later @ out))"
      using Cons.prems(2) by (rule Cons.IH)
    with Flush st fl show ?thesis by simp
  qed
qed

lemma sorted_head_le:
  "sorted (map sequence q) \<Longrightarrow> p \<in> set q \<Longrightarrow> sequence (hd q) \<le> sequence p"
  by (cases q) auto

text \<open>
  C10. Let \<open>p\<close> be queued in a reachable buffer with a sequence number below
  \<open>expectedSequence\<close>. After any further \<open>bufferPacket\<close> and \<open>flush\<close> calls \<open>p\<close> is still
  queued, no frame emitted since is \<open>p\<close> or carries a number as low as \<open>p\<close>'s, the packet
  at the head of the queue has a number no larger than \<open>p\<close>'s (so it is stale too, but
  it need not be \<open>p\<close>), \<open>shouldFlush\<close> holds once 20 ms have passed since the last
  flush, and \<open>clear\<close> empties the queue.
\<close>

theorem stale_packet_stays:
  assumes reach: "fst (run before (new_JitterBuffer, [])) = jb"
    and inq: "p \<in> set (packetQueue jb)"
    and stale: "sequence p < expectedSequence jb"
    and after: "run calls (jb, []) = (jb', later)"
  shows "p \<in> set (packetQueue jb') \<and> p \<notin> set later \<and>
         (\<forall>x \<in> set later. sequence p < sequence x) \<and>
         sequence (hd (packetQueue jb')) \<le> sequence p \<and>
         sequence p < expectedSequence jb' \<and>
         shouldFlush jb' (lastFlushTime jb' + 20) \<and>
         packetQueue (clear jb') = []"
proof -
  have "queue_ok (fst (new_JitterBuffer, []))"
    by (simp add: queue_ok_def new_JitterBuffer_def)
  then have "queue_ok (fst (run before (new_JitterBuffer, [])))" by (rule queue_ok_run)
  with reach have ok: "queue_ok jb" by simp
  with inq have "isInitialized jb" "sorted (map sequence (packetQueue jb))"
    by (auto simp: queue_ok_def)
  with inq have "stale_kept p (expectedSequence jb) (jb, [])"
    by (simp add: stale_kept_def)
  then have "stale_kept p (expectedSequence jb) (run calls (jb, []))"
    using stale by (rule stale_kept_run)
  with after have sk: "p \<in> set (packetQueue jb')" "expectedSequence jb \<le> expectedSequence jb'"
    "sorted (map sequence (packetQueue jb'))" "\<forall>x \<in> set later. expectedSequence jb \<le> sequence x"
    by (simp_all add: stale_kept_def)
  from sk(4) stale have later: "\<forall>x \<in> set later. sequence p < sequence x" by auto
  then have "p \<notin> set later" by auto
  moreover from sk(3,1) have "sequence (hd (packetQueue jb')) \<le> sequence p"
    by (rule sorted_head_le)
  moreover from sk(1) have "shouldFlush jb' (lastFlushTime jb' + 20)"
    by (cases "packetQueue jb'") (simp_all add: shouldFlush_def FRAME_DURATION_MS_def)
  moreover have "packetQueue (clear jb') = []" by (simp add: clear_def)
  ultimately show ?thesis using sk(1,2) stale later by simp
qed

text \<open>Evaluation of the concrete histories.\<close>

lemmas run_defs = stale_calls_def later_calls_def new_JitterBuffer_def bufferPacket_def flush_def
  shouldFlush_def clock_at_def real_packet_def TARGET_DELAY_MS_def FRAME_DURATION_MS_def
  flush_loop.simps splice1_def createSilencePacket_def Let_def

lemma stale_state:
  "run stale_calls (new_JitterBuffer, []) =
     (\<lparr> packetQueue = [(real_packet 3)\<lparr>bufferedAt := 40\<rparr>, (real_packet 5)\<lparr>bufferedAt := 30\<rparr>],
        lastFlushTime = 20, expectedSequence = 11, isInitialized = True \<rparr>,
      [real_packet 10])"
  by (simp add: run_defs)

text \<open>
  After packet 10 was flushed, packets 5 and 3 arrive late, in this order. Packet 5 is
  stale and queued, yet the head of the queue is packet 3.
\<close>

theorem stale_packet_not_head:
  "sequence ((real_packet 5)\<lparr>bufferedAt := 30\<rparr>)
     < expectedSequence (fst (run stale_calls (new_JitterBuffer, []))) \<and>
   (real_packet 5)\<lparr>bufferedAt := 30\<rparr> \<in> set (packetQueue (fst (run stale_calls (new_JitterBuffer, [])))) \<and>
   hd (packetQueue (fst (run stale_calls (new_JitterBuffer, [])))) \<noteq> (real_packet 5)\<lparr>bufferedAt := 30\<rparr>"
  by (simp add: stale_state) (simp add: real_packet_def)


text \<open>The theorem on that history: packet 5 stays queued while silence 11, packet 12 and
  silence 13 are emitted.\<close>

theorem stale_packet_stays_witness:
  "(real_packet 5)\<lparr>bufferedAt := 30\<rparr>
     \<in> set (packetQueue (fst (run stale_calls (new_JitterBuffer, [])))) \<and>
   sequence ((real_packet 5)\<lparr>bufferedAt := 30\<rparr>)
     < expectedSequence (fst (run stale_calls (new_JitterBuffer, []))) \<and>
   map sequence (snd (run later_calls (fst (run stale_calls (new_JitterBuffer, [])), [])))
     = [11, 12, 13] \<and>
   (real_packet 5)\<lparr>bufferedAt := 30\<rparr>
     \<in> set (packetQueue (fst (run later_calls (fst (run stale_calls (new_JitterBuffer, [])), [])))) \<and>
   (real_packet 5)\<lparr>bufferedAt := 30\<rparr>
     \<notin> set (snd (run later_calls (fst (run stale_calls (new_JitterBuffer, [])), [])))"
proof -
  have inq: "(real_packet 5)\<lparr>bufferedAt := 30\<rparr>
     \<in> set (packetQueue (fst (run stale_calls (new_JitterBuffer, []))))"
    by (simp add: stale_state)
  have stale: "sequence ((real_packet 5)\<lparr>bufferedAt := 30\<rparr>)
     < expectedSequence (fst (run stale_calls (new_JitterBuffer, [])))"
    by (simp add: stale_state) (simp add: real_packet_def)
  have seqs: "map sequence (snd (run later_calls (fst (run stale_calls (new_JitterBuffer, [])), [])))
     = [11, 12, 13]"
    by (simp add: stale_state) (simp add: run_defs)
  from stale_packet_stays [OF refl inq stale surjective_pairing] inq stale seqs
  show ?thesis by blast
qed

text \<open>C2 on a history with reordered and duplicated arrivals.\<close>

theorem emitted_strictly_increasing_witness:
  "map sequence (snd (run reorder_calls (new_JitterBuffer, []))) = [4, 5, 6, 7, 8, 9] \<and>
   sorted_wrt (<) (map sequence (snd (run reorder_calls (new_JitterBuffer, [])))) \<and>
   distinct (map sequence (snd (run reorder_calls (new_JitterBuffer, []))))"
proof -
  have "map sequence (snd (run reorder_calls (new_JitterBuffer, []))) = [4, 5, 6, 7, 8, 9]"
    by (simp add: reorder_calls_def run_defs)
  with emitted_strictly_increasing [of reorder_calls] show ?thesis by blast
qed

subsection \<open>Stream decoder adapter\<close>

lemma length_decode_results: "length (decode_results decode d pkts) = length pkts"
  by (induction pkts arbitrary: d) (auto split: prod.splits)

lemma process_packet_spec:
  "\<exists>h'. process_packet decode h packet = Inr h' \<and>
        pcmStream h' = pcmStream h @ [block_of (fst (decode (opusDecoder h) (data packet)))] \<and>
        opusDecoder h' = snd (decode (opusDecoder h) (data packet)) \<and>
        jitterBuffer h' = jitterBuffer h \<and> isActive h' = isActive h"
proof (cases "decode (opusDecoder h) (data packet)")
  case (Pair r d')
  then show ?thesis
    by (cases r) (simp_all add: process_packet_def decode_and_write_def block_of_def)
qed

lemma process_packets_spec:
  "\<exists>h'. process_packets decode h pkts = Inr h' \<and>
        pcmStream h' = pcmStream h @ map block_of (decode_results decode (opusDecoder h) pkts) \<and>
        jitterBuffer h' = jitterBuffer h \<and> isActive h' = isActive h"
proof (induction pkts arbitrary: h)
  case Nil
  show ?case by simp
next
  case (Cons packet rest)
  from process_packet_spec [of decode h packet] obtain h1 where h1:
    "process_packet decode h packet = Inr h1"
    "pcmStream h1 = pcmStream h @ [block_of (fst (decode (opusDecoder h) (data packet)))]"
    "opusDecoder h1 = snd (decode (opusDecoder h) (data packet))"
    "jitterBuffer h1 = jitterBuffer h" "isActive h1 = isActive h"
    by blast
  from Cons.IH [of h1] obtain h' where h':
    "process_packets decode h1 rest = Inr h'"
    "pcmStream h' = pcmStream h1 @ map block_of (decode_results decode (opusDecoder h1) rest)"
    "jitterBuffer h' = jitterBuffer h1" "isActive h' = isActive h1"
    by blast
  from h1 h' show ?case
    by (simp split: prod.splits)
qed

text \<open>
  C8. One tick of an active handler never fails: it returns a handler whose PCM stream
  has grown by exactly one block per frame that \<open>flush\<close> emitted, in order, where the
  block of a frame the decoder rejects is 3840 zero bytes (20 ms of 48 kHz 16-bit
  stereo) and the block of any other frame is the decoder's PCM. An inactive handler
  does nothing.
\<close>

theorem processJitterBuffer_conceals:
  "(isActive h \<longrightarrow>
     (\<exists>h'. processJitterBuffer decode h c = Inr h' \<and>
        pcmStream h' =
          pcmStream h @
          map block_of (decode_results decode (opusDecoder h) (fst (flush (jitterBuffer h) c))) \<and>
        length (pcmStream h') = length (pcmStream h) + length (fst (flush (jitterBuffer h) c)) \<and>
        jitterBuffer h' = snd (flush (jitterBuffer h) c))) \<and>
   (\<not> isActive h \<longrightarrow> processJitterBuffer decode h c = Inr h) \<and>
   (\<forall>err. block_of (Inl err) = replicate 3840 0 \<and> length (block_of (Inl err)) = 3840) \<and>
   (\<forall>pcmData. block_of (Inr pcmData) = pcmData) \<and>
   OPUS_SAMPLE_RATE * OPUS_FRAME_DURATION div 1000 * CHANNELS * 2 = 3840"
proof (intro conjI impI allI)
  assume active: "isActive h"
  obtain pkts jb' where fl: "flush (jitterBuffer h) c = (pkts, jb')"
    by (cases "flush (jitterBuffer h) c")
  from process_packets_spec [of decode "h\<lparr>jitterBuffer := jb'\<rparr>" pkts] obtain h' where h':
    "process_packets decode (h\<lparr>jitterBuffer := jb'\<rparr>) pkts = Inr h'"
    "pcmStream h' = pcmStream h @ map block_of (decode_results decode (opusDecoder h) pkts)"
    "jitterBuffer h' = jb'"
    by auto
  from active fl h'(1) have "processJitterBuffer decode h c = Inr h'"
    by (simp add: processJitterBuffer_def)
  with h'(2,3) fl show "\<exists>h'. processJitterBuffer decode h c = Inr h' \<and>
        pcmStream h' =
          pcmStream h @
          map block_of (decode_results decode (opusDecoder h) (fst (flush (jitterBuffer h) c))) \<and>
        length (pcmStream h') = length (pcmStream h) + length (fst (flush (jitterBuffer h) c)) \<and>
        jitterBuffer h' = snd (flush (jitterBuffer h) c)"
    by (simp add: length_decode_results)
next
  assume "\<not> isActive h"
  then show "processJitterBuffer decode h c = Inr h"
    by (simp add: processJitterBuffer_def)
qed (simp_all add: block_of_def OPUS_SAMPLE_RATE_def OPUS_FRAME_DURATION_def CHANNELS_def)

lemma flush_4_7_at_80:
  "flush jb_4_7 (clock_at 80) =
     ([real_packet 4, createSilencePacket 5 80, createSilencePacket 6 80, real_packet 7],
      jb_4_7\<lparr>lastFlushTime := 80, packetQueue := [], expectedSequence := 8\<rparr>)"
  by (simp add: jb_4_7_def run_defs)

text \<open>The theorem on a handler whose buffer holds packets 4 and 7, with a decoder that
  rejects the silence frames 5 and 6.\<close>

theorem processJitterBuffer_conceals_witness:
  "isActive handler_4_7 \<and>
   (\<exists>h'. processJitterBuffer strict_decoder handler_4_7 (clock_at 80) = Inr h' \<and>
      pcmStream h' = [[1, 2, 3, 4], replicate 3840 0, replicate 3840 0, [1, 2, 3, 4]] \<and>
      length (pcmStream h') = length (fst (flush (jitterBuffer handler_4_7) (clock_at 80)))) \<and>
   processJitterBuffer strict_decoder (handler_4_7\<lparr>isActive := False\<rparr>) (clock_at 80)
     = Inr (handler_4_7\<lparr>isActive := False\<rparr>)"
proof -
  have active: "isActive handler_4_7" by (simp add: handler_4_7_def)
  have res: "map block_of (decode_results strict_decoder ()
       (fst (flush (jitterBuffer handler_4_7) (clock_at 80))))
     = [[1, 2, 3, 4], replicate 3840 0, replicate 3840 0, [1, 2, 3, 4]]"
    by (simp add: handler_4_7_def flush_4_7_at_80 strict_decoder_def block_of_def
        real_packet_def createSilencePacket_def)
  have empty: "pcmStream handler_4_7 = []" by (simp add: handler_4_7_def)
  from processJitterBuffer_conceals [of handler_4_7 strict_decoder "clock_at 80"]
    processJitterBuffer_conceals [of "handler_4_7\<lparr>isActive := False\<rparr>" strict_decoder "clock_at 80"]
    active
  show ?thesis by (auto simp: res empty)
qed

subsection \<open>Drift corrector\<close>

text \<open>
  C7. Below the 10 ms threshold \<open>correctDrift\<close> returns the input file and requests no
  render. Otherwise it requests exactly one render of the input file, whose tempo factor
  is \<open>1 - driftMs / 1000\<close> clamped into \<open>[0.95, 1.05]\<close>; a raw factor of 1.2 is applied
  as 1.05 and a raw factor of 0.80 as 0.95.
\<close>

theorem correctDrift_policy:
  "(\<bar>d\<bar> < 10 \<longrightarrow> correctDrift exec inputFile d outputFile = (Inr inputFile, [])) \<and>
   (10 \<le> \<bar>d\<bar> \<longrightarrow>
      (\<exists>job. snd (correctDrift exec inputFile d outputFile) = [job] \<and>
         job_input job = inputFile \<and>
         job_atempo job = clamp 0.95 1.05 (1 - d / 1000) \<and>
         0.95 \<le> job_atempo job \<and> job_atempo job \<le> 1.05)) \<and>
   (1 - d / 1000 = 1.2 \<longrightarrow>
      map job_atempo (snd (correctDrift exec inputFile d outputFile)) = [1.05]) \<and>
   (1 - d / 1000 = 0.80 \<longrightarrow>
      map job_atempo (snd (correctDrift exec inputFile d outputFile)) = [0.95])"
proof (intro conjI impI)
  assume "\<bar>d\<bar> < 10"
  then show "correctDrift exec inputFile d outputFile = (Inr inputFile, [])"
    by (simp add: correctDrift_def DRIFT_THRESHOLD_MS_def)
next
  assume "10 \<le> \<bar>d\<bar>"
  then have "snd (correctDrift exec inputFile d outputFile) =
      [\<lparr> job_input = inputFile, job_atempo = max 0.95 (min 1.05 (1 - d / 1000)),
         job_output = outputFile \<rparr>]"
    by (simp add: correctDrift_def DRIFT_THRESHOLD_MS_def Let_def)
  moreover have "max 0.95 (min 1.05 (1 - d / 1000)) = clamp 0.95 1.05 (1 - d / 1000)"
    by (simp add: clamp_def max_def min_def)
  moreover have "0.95 \<le> clamp 0.95 1.05 (1 - d / 1000)" "clamp 0.95 1.05 (1 - d / 1000) \<le> 1.05"
    by (simp_all add: clamp_def)
  ultimately show "\<exists>job. snd (correctDrift exec inputFile d outputFile) = [job] \<and>
         job_input job = inputFile \<and>
         job_atempo job = clamp 0.95 1.05 (1 - d / 1000) \<and>
         0.95 \<le> job_atempo job \<and> job_atempo job \<le> 1.05"
    by simp
next
  assume raw: "1 - d / 1000 = 1.2"
  then have "d = -200" by simp
  then show "map job_atempo (snd (correctDrift exec inputFile d outputFile)) = [1.05]"
    by (simp add: correctDrift_def DRIFT_THRESHOLD_MS_def Let_def)
next
  assume raw: "1 - d / 1000 = 0.80"
  then have "d = 200" by simp
  then show "map job_atempo (snd (correctDrift exec inputFile d outputFile)) = [0.95]"
    by (simp add: correctDrift_def DRIFT_THRESHOLD_MS_def Let_def)
qed

text \<open>The theorem at drifts of 9.5, -200, 200 and 30 ms.\<close>

theorem correctDrift_policy_witness:
  "\<bar>9.5 :: real\<bar> < 10 \<and> correctDrift (\<lambda>job. True) ''a.pcm'' 9.5 ''c.pcm'' = (Inr ''a.pcm'', []) \<and>
   10 \<le> \<bar>-200 :: real\<bar> \<and> 1 - (-200) / 1000 = (1.2 :: real) \<and>
   map job_atempo (snd (correctDrift (\<lambda>job. True) ''a.pcm'' (-200) ''c.pcm'')) = [1.05] \<and>
   10 \<le> \<bar>200 :: real\<bar> \<and> 1 - 200 / 1000 = (0.80 :: real) \<and>
   map job_atempo (snd (correctDrift (\<lambda>job. True) ''a.pcm'' 200 ''c.pcm'')) = [0.95] \<and>
   10 \<le> \<bar>30 :: real\<bar> \<and>
   map job_atempo (snd (correctDrift (\<lambda>job. True) ''a.pcm'' 30 ''c.pcm'')) = [0.97]"
proof -
  have a: "\<bar>9.5 :: real\<bar> < 10" by simp
  have b: "1 - (-200) / 1000 = (1.2 :: real)" by simp
  have c: "1 - 200 / 1000 = (0.80 :: real)" by simp
  have d: "10 \<le> \<bar>30 :: real\<bar>" by simp
  from correctDrift_policy [of 30 "\<lambda>job. True" "''a.pcm''" "''c.pcm''"] d
  have "map job_atempo (snd (correctDrift (\<lambda>job. True) ''a.pcm'' 30 ''c.pcm'')) = [0.97]"
    by (auto simp: clamp_def)
  with a b c d correctDrift_policy [of "9.5" "\<lambda>job. True" "''a.pcm''" "''c.pcm''"]
    correctDrift_policy [of "-200" "\<lambda>job. True" "''a.pcm''" "''c.pcm''"]
    correctDrift_policy [of "200" "\<lambda>job. True" "''a.pcm''" "''c.pcm''"]
  show ?thesis by simp
qed

subsection \<open>Timeline and mix planner\<close>











subsection \<open>Drift detection\<close>

















end
